theory Spec2Isabelle
  imports Complex_Main "HOL-Library.Multiset"
begin

section \<open>Data model (types/index.ts)\<close>

text \<open>
  \<^verbatim>\<open>interface Participant { id: string; name: string; }\<close> and
  \<^verbatim>\<open>interface Assignment { giverId: string; receiverId: string; }\<close>.
  The field \<^verbatim>\<open>id\<close> is written \<open>id'\<close>, since \<open>id\<close> is the identity function of HOL.
\<close>

record participant =
  id' :: string
  name :: string

record assignment =
  giverId :: string
  receiverId :: string

section \<open>The validator (utils/derangement.ts, validateAssignments)\<close>

text \<open>
  The body of the \<^verbatim>\<open>for (const assignment of assignments)\<close> loop, with the three sets
  the function keeps: \<open>participantIds\<close> (fixed), \<open>giverIds\<close> and \<open>receiverIds\<close> (growing).
  Each \<^verbatim>\<open>return false\<close> of the source is a branch returning \<open>False\<close>; the equation for the
  empty list is the final \<^verbatim>\<open>return giverIds.size === participants.length && ...\<close>.
\<close>

fun validate_loop ::
  "string set \<Rightarrow> nat \<Rightarrow> string set \<Rightarrow> string set \<Rightarrow> assignment list \<Rightarrow> bool" where
  "validate_loop participantIds n giverIds receiverIds [] =
     (card giverIds = n \<and> card receiverIds = n)"
| "validate_loop participantIds n giverIds receiverIds (a # rest) =
     (if giverId a \<notin> participantIds \<or> receiverId a \<notin> participantIds then False
      else if giverId a = receiverId a then False
      else if giverId a \<in> giverIds \<or> receiverId a \<in> receiverIds then False
      else validate_loop participantIds n
             (insert (giverId a) giverIds) (insert (receiverId a) receiverIds) rest)"

definition validateAssignments :: "participant list \<Rightarrow> assignment list \<Rightarrow> bool" where
  "validateAssignments participants assignments =
     (if length assignments \<noteq> length participants then False
      else validate_loop (set (map id' participants)) (length participants) {} {} assignments)"

subsection \<open>The validator on untyped values\<close>

text \<open>
  At run time nothing enforces the type \<^verbatim>\<open>Assignment[]\<close>: the stored assignments come out of
  \<^verbatim>\<open>JSON.parse\<close>. To state what \<^verbatim>\<open>validateAssignments\<close> does on such input, the second
  argument is a JavaScript value as \<^verbatim>\<open>JSON.parse\<close> builds it (a tree, numbers finite; strings
  are taken as sequences of single-unit characters), plus \<^verbatim>\<open>undefined\<close>. The participants
  stay typed.
\<close>

datatype js_value =
  JUndefined
| JNull
| JBoolean bool
| JNumber real
| JString string
| JArray "js_value list"
| JObject "(string \<times> js_value) list"

datatype js_error = TypeError

text \<open>
  Reading a property, for the three names the function reads (\<^verbatim>\<open>length\<close>,
  \<^verbatim>\<open>giverId\<close>, \<^verbatim>\<open>receiverId\<close>): on \<^verbatim>\<open>undefined\<close> and \<^verbatim>\<open>null\<close> it throws a TypeError, on
  an object it gives the property or \<^verbatim>\<open>undefined\<close>, on the other values \<^verbatim>\<open>undefined\<close>,
  \<^verbatim>\<open>length\<close> of an array or a string apart.
\<close>

fun get_prop :: "js_value \<Rightarrow> string \<Rightarrow> js_error + js_value" where
  "get_prop JUndefined key = Inl TypeError"
| "get_prop JNull key = Inl TypeError"
| "get_prop (JObject props) key =
     Inr (case map_of props key of None \<Rightarrow> JUndefined | Some v \<Rightarrow> v)"
| "get_prop (JArray xs) key =
     Inr (if key = ''length'' then JNumber (real (length xs)) else JUndefined)"
| "get_prop (JString s) key =
     Inr (if key = ''length'' then JNumber (real (length s)) else JUndefined)"
| "get_prop (JBoolean b) key = Inr JUndefined"
| "get_prop (JNumber x) key = Inr JUndefined"

text \<open>\<^verbatim>\<open>for (const assignment of assignments)\<close>: arrays and strings are iterable.\<close>

fun iterate :: "js_value \<Rightarrow> js_error + js_value list" where
  "iterate (JArray xs) = Inr xs"
| "iterate (JString s) = Inr (map (\<lambda>c. JString [c]) s)"
| "iterate v = Inl TypeError"

text \<open>
  \<^verbatim>\<open>===\<close>, which on these values is also the equality of \<^verbatim>\<open>Set.prototype.has\<close>. Objects and
  arrays are equal by reference only, and two values read from different places of a parsed
  tree are never the same reference.
\<close>

fun strict_eq :: "js_value \<Rightarrow> js_value \<Rightarrow> bool" where
  "strict_eq JUndefined JUndefined = True"
| "strict_eq JNull JNull = True"
| "strict_eq (JBoolean a) (JBoolean b) = (a = b)"
| "strict_eq (JNumber a) (JNumber b) = (a = b)"
| "strict_eq (JString a) (JString b) = (a = b)"
| "strict_eq v w = False"

text \<open>
  \<^verbatim>\<open>participantIds.has(v)\<close>, the set holding the (string) ids of the participants;
  \<^verbatim>\<open>giverIds\<close> and \<^verbatim>\<open>receiverIds\<close> hold whatever values were added, in insertion order,
  and \<^verbatim>\<open>size\<close> is the length.
\<close>

definition has_id :: "string set \<Rightarrow> js_value \<Rightarrow> bool" where
  "has_id ids v = (case v of JString x \<Rightarrow> x \<in> ids | _ \<Rightarrow> False)"

definition set_has :: "js_value list \<Rightarrow> js_value \<Rightarrow> bool" where
  "set_has elems v = list_ex (\<lambda>x. strict_eq x v) elems"

definition set_add :: "js_value list \<Rightarrow> js_value \<Rightarrow> js_value list" where
  "set_add elems v = (if set_has elems v then elems else elems @ [v])"

text \<open>
  The loop body again, on values. \<^verbatim>\<open>||\<close> short-circuits: \<^verbatim>\<open>assignment.receiverId\<close> is read
  only when \<^verbatim>\<open>participantIds.has(assignment.giverId)\<close> holds.
\<close>

fun validate_loop_js ::
  "string set \<Rightarrow> nat \<Rightarrow> js_value list \<Rightarrow> js_value list \<Rightarrow> js_value list \<Rightarrow> js_error + bool"
where
  "validate_loop_js participantIds n giverIds receiverIds [] =
     Inr (length giverIds = n \<and> length receiverIds = n)"
| "validate_loop_js participantIds n giverIds receiverIds (a # rest) =
     (case get_prop a ''giverId'' of
        Inl e \<Rightarrow> Inl e
      | Inr g \<Rightarrow>
          if \<not> has_id participantIds g then Inr False
          else (case get_prop a ''receiverId'' of
             Inl e \<Rightarrow> Inl e
           | Inr r \<Rightarrow>
               if \<not> has_id participantIds r then Inr False
               else if strict_eq g r then Inr False
               else if set_has giverIds g \<or> set_has receiverIds r then Inr False
               else validate_loop_js participantIds n
                      (set_add giverIds g) (set_add receiverIds r) rest))"

text \<open>
  The function itself: the length test (reading \<^verbatim>\<open>assignments.length\<close> throws on
  \<^verbatim>\<open>null\<close> and \<^verbatim>\<open>undefined\<close>), then the loop over the elements.
\<close>

definition validateAssignments_js :: "participant list \<Rightarrow> js_value \<Rightarrow> js_error + bool" where
  "validateAssignments_js participants assignments =
     (case get_prop assignments ''length'' of
        Inl e \<Rightarrow> Inl e
      | Inr len \<Rightarrow>
          if \<not> strict_eq len (JNumber (real (length participants))) then Inr False
          else (case iterate assignments of
             Inl e \<Rightarrow> Inl e
           | Inr elems \<Rightarrow>
               validate_loop_js (set (map id' participants)) (length participants) [] [] elems))"

text \<open>A well-typed assignment as a value, and the test that a property holds a string.\<close>

definition assignment_value :: "assignment \<Rightarrow> js_value" where
  "assignment_value a =
     JObject [(''giverId'', JString (giverId a)), (''receiverId'', JString (receiverId a))]"

definition string_prop :: "js_value \<Rightarrow> string \<Rightarrow> bool" where
  "string_prop v key = (case get_prop v key of Inr (JString x) \<Rightarrow> True | _ \<Rightarrow> False)"

section \<open>The generator (utils/derangement.ts)\<close>

subsection \<open>The random source and the console\<close>

text \<open>
  \<^verbatim>\<open>Math.random()\<close> is the only source of randomness. It is modelled as a fixed sequence
  \<open>u\<close> of reals, \<open>u k\<close> being the value of the \<open>k\<close>-th call, and every function that calls it
  takes the number of calls made so far and returns the new number. \<^verbatim>\<open>Math.random()\<close>
  returns a number in \<open>[0, 1)\<close>: that contract is \<open>rng_ok\<close>.
  \<^verbatim>\<open>Math.floor(Math.random() * (i + 1))\<close> is \<open>random_index (u k) i\<close>.
\<close>

type_synonym rng = "nat \<Rightarrow> real"

definition rng_ok :: "rng \<Rightarrow> bool" where
  "rng_ok u \<longleftrightarrow> (\<forall>k. 0 \<le> u k \<and> u k < 1)"

definition random_index :: "real \<Rightarrow> nat \<Rightarrow> nat" where
  "random_index r i = nat \<lfloor>r * real (i + 1)\<rfloor>"

text \<open>
  The three console messages of \<^verbatim>\<open>generateDerangement\<close>:
  \<^verbatim>\<open>console.error('Need at least 2 participants for Secret Santa')\<close>,
  \<^verbatim>\<open>console.log(`Derangement generated successfully in ${attempt + 1} attempts`)\<close> and
  \<^verbatim>\<open>console.error(`Failed to generate derangement after ${maxAttempts} attempts`)\<close>.
\<close>

datatype console_line =
  Error_need_participants
| Log_generated nat
| Error_failed nat

record js_state =
  random_calls :: nat
  console :: "console_line list"

subsection \<open>shuffle\<close>

text \<open>
  \<^verbatim>\<open>for (let i = result.length - 1; i > 0; i--) { const j = ...; [result[i], result[j]] = [result[j], result[i]]; }\<close>
  The first argument after the source is the loop variable \<open>i\<close>; the loop stops at \<open>0\<close>.
  The destructuring assignment reads both elements first, then writes \<open>result[i]\<close>, then
  \<open>result[j]\<close>.
\<close>

fun shuffle_loop :: "rng \<Rightarrow> nat \<Rightarrow> 'a list \<Rightarrow> nat \<Rightarrow> 'a list \<times> nat" where
  "shuffle_loop u 0 result k = (result, k)"
| "shuffle_loop u (Suc i) result k =
     (let j = random_index (u k) (Suc i)
      in shuffle_loop u i (result[Suc i := result ! j, j := result ! Suc i]) (Suc k))"

definition shuffle :: "'a list \<Rightarrow> rng \<Rightarrow> nat \<Rightarrow> 'a list \<times> nat" where
  "shuffle array u k = shuffle_loop u (length array - 1) array k"

text \<open>
  The same loop driven by an explicit sequence of choices: the first choice is the index
  \<open>j\<close> drawn for the last position, the next one for the position before, and so on down to
  position 1. A choice sequence for a list of length \<open>n\<close> is admissible when it has one
  choice for each of the positions \<open>n - 1, \<dots>, 1\<close>, the choice for position \<open>i\<close> in \<open>[0, i]\<close>.
\<close>

fun shuffle_choices :: "nat \<Rightarrow> nat list \<Rightarrow> 'a list \<Rightarrow> 'a list" where
  "shuffle_choices 0 js result = result"
| "shuffle_choices (Suc i) [] result = result"
| "shuffle_choices (Suc i) (j # js) result =
     shuffle_choices i js (result[Suc i := result ! j, j := result ! Suc i])"

fun choices_ok :: "nat \<Rightarrow> nat list \<Rightarrow> bool" where
  "choices_ok 0 js = (js = [])"
| "choices_ok (Suc i) [] = False"
| "choices_ok (Suc i) (j # js) = (j \<le> Suc i \<and> choices_ok i js)"

text \<open>The choices that \<open>shuffle_loop\<close> draws from the random source, in order.\<close>

fun draws :: "rng \<Rightarrow> nat \<Rightarrow> nat \<Rightarrow> nat list" where
  "draws u 0 k = []"
| "draws u (Suc i) k = random_index (u k) (Suc i) # draws u i (Suc k)"

subsection \<open>isDerangement\<close>

text \<open>
  \<^verbatim>\<open>for (let i = 0; i < original.length; i++) if (original[i] === shuffled[i]) return false;\<close>
  Past the end of \<open>shuffled\<close> the source reads \<^verbatim>\<open>undefined\<close>, which is never \<open>===\<close> to an
  element of \<open>original\<close>.
\<close>

fun isDerangement :: "'a list \<Rightarrow> 'a list \<Rightarrow> bool" where
  "isDerangement [] shuffled = True"
| "isDerangement (x # original) [] = True"
| "isDerangement (x # original) (y # shuffled) =
     (if x = y then False else isDerangement original shuffled)"

subsection \<open>generateDerangement\<close>

text \<open>
  \<^verbatim>\<open>ids.map((giverId, index) => ({ giverId, receiverId: shuffledIds[index] }))\<close>
\<close>

definition make_assignments :: "string list \<Rightarrow> string list \<Rightarrow> assignment list" where
  "make_assignments ids shuffledIds =
     map (\<lambda>index. \<lparr>giverId = ids ! index, receiverId = shuffledIds ! index\<rparr>) [0..<length ids]"

text \<open>
  \<^verbatim>\<open>for (let attempt = 0; attempt < maxAttempts; attempt++)\<close> and the code after the loop.
  \<^verbatim>\<open>null\<close> is \<open>None\<close>. \<open>maxAttempts\<close> is a count, a natural number (default 1000); the
  loop variable \<open>attempt\<close> is the fourth argument. The state carries the number of calls of
  \<^verbatim>\<open>Math.random()\<close> made so far and the lines written to the console.
\<close>

function generate_loop ::
  "string list \<Rightarrow> nat \<Rightarrow> rng \<Rightarrow> nat \<Rightarrow> js_state \<Rightarrow> assignment list option \<times> js_state" where
  "generate_loop ids maxAttempts u attempt s =
     (if attempt < maxAttempts then
        (case shuffle ids u (random_calls s) of (shuffledIds, k) \<Rightarrow>
           if isDerangement ids shuffledIds
           then (Some (make_assignments ids shuffledIds),
                 s\<lparr>random_calls := k, console := console s @ [Log_generated (attempt + 1)]\<rparr>)
           else generate_loop ids maxAttempts u (attempt + 1) (s\<lparr>random_calls := k\<rparr>))
      else (None, s\<lparr>console := console s @ [Error_failed maxAttempts]\<rparr>))"
  by pat_completeness auto
termination
  by (relation "measure (\<lambda>(ids, maxAttempts, u, attempt, s). maxAttempts - attempt)") auto

declare generate_loop.simps [simp del]

definition generateDerangement ::
  "participant list \<Rightarrow> nat \<Rightarrow> rng \<Rightarrow> js_state \<Rightarrow> assignment list option \<times> js_state" where
  "generateDerangement participants maxAttempts u s =
     (if length participants < 2
      then (None, s\<lparr>console := console s @ [Error_need_participants]\<rparr>)
      else generate_loop (map id' participants) maxAttempts u 0 s)"

section \<open>Properties of the validator\<close>

lemma validate_loop_iff:
  "finite G \<Longrightarrow> finite R \<Longrightarrow>
   validate_loop P n G R as \<longleftrightarrow>
     (\<forall>a \<in> set as. giverId a \<in> P \<and> receiverId a \<in> P \<and> giverId a \<noteq> receiverId a)
     \<and> distinct (map giverId as) \<and> distinct (map receiverId as)
     \<and> set (map giverId as) \<inter> G = {} \<and> set (map receiverId as) \<inter> R = {}
     \<and> card (G \<union> set (map giverId as)) = n \<and> card (R \<union> set (map receiverId as)) = n"
proof (induction as arbitrary: G R)
  case Nil
  then show ?case by simp
next
  case (Cons a as)
  have fin: "finite (insert (giverId a) G)" "finite (insert (receiverId a) R)"
    using Cons.prems by simp_all
  show ?case
    unfolding validate_loop.simps Cons.IH [OF fin]
    by (auto simp: Un_insert_left [symmetric] simp del: Un_insert_left)
qed

lemma validateAssignments_iff:
  "validateAssignments ps as \<longleftrightarrow>
     length as = length ps
     \<and> (\<forall>a \<in> set as. giverId a \<in> set (map id' ps) \<and> receiverId a \<in> set (map id' ps)
            \<and> giverId a \<noteq> receiverId a)
     \<and> distinct (map giverId as) \<and> distinct (map receiverId as)
     \<and> card (set (map giverId as)) = length ps
     \<and> card (set (map receiverId as)) = length ps"
  unfolding validateAssignments_def
  by (simp add: validate_loop_iff del: set_map)

lemma validateAssignments_distinct_ids:
  assumes "validateAssignments ps as"
  shows "distinct (map id' ps)"
proof -
  from assms have sub: "set (map giverId as) \<subseteq> set (map id' ps)"
    and c: "card (set (map giverId as)) = length ps"
    unfolding validateAssignments_iff by auto
  have "card (set (map giverId as)) \<le> card (set (map id' ps))"
    using sub by (intro card_mono) simp_all
  moreover have "card (set (map id' ps)) \<le> length (map id' ps)"
    by (rule card_length)
  ultimately have "card (set (map id' ps)) = length (map id' ps)"
    using c by simp
  then show ?thesis by (rule card_distinct)
qed

lemma set_has_strings: "set_has (map JString xs) (JString x) \<longleftrightarrow> x \<in> set xs"
  by (induction xs) (auto simp: set_has_def)

lemma has_id_string: "has_id P v \<Longrightarrow> \<exists>x. v = JString x \<and> x \<in> P"
  by (cases v) (simp_all add: has_id_def)

lemma validate_loop_js_typed:
  "distinct gl \<Longrightarrow> distinct rl \<Longrightarrow>
   validate_loop_js P n (map JString gl) (map JString rl) (map assignment_value as)
     = Inr (validate_loop P n (set gl) (set rl) as)"
proof (induction as arbitrary: gl rl)
  case Nil
  then show ?case by (simp add: distinct_card)
next
  case (Cons a as)
  show ?case
  proof (cases "giverId a \<in> P \<and> receiverId a \<in> P \<and> giverId a \<noteq> receiverId a
      \<and> giverId a \<notin> set gl \<and> receiverId a \<notin> set rl")
    case True
    then have d: "distinct (gl @ [giverId a])" "distinct (rl @ [receiverId a])"
      using Cons.prems by simp_all
    from True Cons.IH [OF d] show ?thesis
      by (simp add: assignment_value_def has_id_def set_has_strings set_add_def)
  next
    case False
    then show ?thesis
      by (auto simp: assignment_value_def has_id_def set_has_strings)
  qed
qed

lemma validateAssignments_js_typed:
  "validateAssignments_js ps (JArray (map assignment_value as)) = Inr (validateAssignments ps as)"
  using validate_loop_js_typed [of "[]" "[]" "set (map id' ps)" "length ps" as]
  by (simp add: validateAssignments_js_def validateAssignments_def)

lemma get_prop_defined: "a \<noteq> JNull \<Longrightarrow> a \<noteq> JUndefined \<Longrightarrow> \<exists>v. get_prop a key = Inr v"
  by (cases a) simp_all

lemma validate_loop_js_total:
  "\<forall>a \<in> set elems. a \<noteq> JNull \<and> a \<noteq> JUndefined \<Longrightarrow>
   \<exists>b. validate_loop_js P n G R elems = Inr b
      \<and> (b \<longrightarrow> (\<forall>a \<in> set elems. string_prop a ''giverId'' \<and> string_prop a ''receiverId''))"
proof (induction elems arbitrary: G R)
  case Nil
  then show ?case by simp
next
  case (Cons a elems)
  from Cons.prems obtain g r where g: "get_prop a ''giverId'' = Inr g"
    and r: "get_prop a ''receiverId'' = Inr r"
    using get_prop_defined [of a] by (metis list.set_intros(1))
  show ?case
  proof (cases "has_id P g \<and> has_id P r \<and> \<not> strict_eq g r \<and> \<not> set_has G g \<and> \<not> set_has R r")
    case True
    then have "string_prop a ''giverId''" "string_prop a ''receiverId''"
      using g r by (auto simp: string_prop_def dest: has_id_string)
    moreover from Cons.prems have "\<forall>a \<in> set elems. a \<noteq> JNull \<and> a \<noteq> JUndefined" by simp
    from Cons.IH [OF this, of "set_add G g" "set_add R r"] obtain b
      where "validate_loop_js P n (set_add G g) (set_add R r) elems = Inr b"
        "b \<longrightarrow> (\<forall>a \<in> set elems. string_prop a ''giverId'' \<and> string_prop a ''receiverId'')"
      by blast
    ultimately show ?thesis using True g r by simp
  next
    case False
    then have "validate_loop_js P n G R (a # elems) = Inr False"
      using g r by auto
    then show ?thesis by (intro exI [of _ False]) (simp del: validate_loop_js.simps)
  qed
qed

lemma validateAssignments_js_total:
  assumes "\<forall>a \<in> set elems. a \<noteq> JNull \<and> a \<noteq> JUndefined"
  shows "\<exists>b. validateAssignments_js ps (JArray elems) = Inr b
      \<and> (b \<longrightarrow> length elems = length ps
             \<and> (\<forall>a \<in> set elems. string_prop a ''giverId'' \<and> string_prop a ''receiverId''))"
proof (cases "length elems = length ps")
  case True
  with validate_loop_js_total [OF assms, of "set (map id' ps)" "length ps" "[]" "[]"]
  show ?thesis by (simp add: validateAssignments_js_def)
next
  case False
  then have "validateAssignments_js ps (JArray elems) = Inr False"
    by (simp add: validateAssignments_js_def)
  then show ?thesis by (intro exI [of _ False]) simp
qed

section \<open>Properties of shuffle and of the generator\<close>

lemma random_index_le:
  assumes "0 \<le> r" "r < 1"
  shows "random_index r i \<le> i"
proof -
  have "r * real (i + 1) < real (i + 1)"
    using assms by simp
  then have "\<lfloor>r * real (i + 1)\<rfloor> < int (i + 1)"
    by (simp add: floor_less_iff)
  then show ?thesis
    unfolding random_index_def by linarith
qed

lemma shuffle_loop_choices:
  "shuffle_loop u i r k = (shuffle_choices i (draws u i k) r, k + i)"
  by (induction i arbitrary: r k) (simp_all add: Let_def)

lemma choices_ok_draws: "rng_ok u \<Longrightarrow> choices_ok i (draws u i k)"
  by (induction i arbitrary: k) (simp_all add: rng_ok_def random_index_le)

lemma length_draws [simp]: "length (draws u i k) = i"
  by (induction i arbitrary: k) simp_all

lemma length_shuffle_choices [simp]: "length (shuffle_choices i js r) = length r"
  by (induction i js r rule: shuffle_choices.induct) simp_all

lemma mset_shuffle_choices:
  "choices_ok i js \<Longrightarrow> i < length r \<Longrightarrow> mset (shuffle_choices i js r) = mset r"
proof (induction i js r rule: shuffle_choices.induct)
  case (3 i j js r)
  then show ?case by (simp add: mset_swap)
qed simp_all

lemma shuffle_choices_map:
  "choices_ok i js \<Longrightarrow> i < length r \<Longrightarrow>
   shuffle_choices i js (map f r) = map f (shuffle_choices i js r)"
proof (induction i js r rule: shuffle_choices.induct)
  case (3 i j js r)
  then show ?case by (simp add: map_update)
qed simp_all

lemma shuffle_choices_positions:
  assumes "choices_ok (length xs - 1) js"
  shows "shuffle_choices (length xs - 1) js xs
         = map ((!) xs) (shuffle_choices (length xs - 1) js [0..<length xs])"
proof (cases "xs = []")
  case True
  then show ?thesis by simp 
next
  case False
  then have "length xs - 1 < length [0..<length xs]" by (cases xs) simp_all
  from shuffle_choices_map [OF assms this, of "(!) xs"] show ?thesis
    by (simp add: map_nth)
qed


lemma nth_shuffle_choices_above:
  "choices_ok i js \<Longrightarrow> i < k \<Longrightarrow> shuffle_choices i js r ! k = r ! k"
proof (induction i js r rule: shuffle_choices.induct)
  case (3 i j js r)
  then show ?case by simp
qed simp_all

lemma swap_nth_top: "j \<le> i \<Longrightarrow> i < length r \<Longrightarrow> (r[i := r ! j, j := r ! i]) ! i = r ! j"
  by (cases "j = i") simp_all

lemma shuffle_choices_inj:
  "distinct r \<Longrightarrow> i < length r \<Longrightarrow> choices_ok i js \<Longrightarrow> choices_ok i js' \<Longrightarrow>
   shuffle_choices i js r = shuffle_choices i js' r \<Longrightarrow> js = js'"
proof (induction i arbitrary: js js' r)
  case 0
  then show ?case by simp
next
  case (Suc i)
  from Suc.prems(3) obtain j js1 where js: "js = j # js1" and j: "j \<le> Suc i" and ok1: "choices_ok i js1"
    by (cases js) auto
  from Suc.prems(4) obtain j' js1' where js': "js' = j' # js1'" and j': "j' \<le> Suc i"
    and ok1': "choices_ok i js1'"
    by (cases js') auto
  let ?r1 = "r[Suc i := r ! j, j := r ! Suc i]"
  let ?r1' = "r[Suc i := r ! j', j' := r ! Suc i]"
  from Suc.prems(5) have eq: "shuffle_choices i js1 ?r1 = shuffle_choices i js1' ?r1'"
    by (simp add: js js')
  have "shuffle_choices i js1 ?r1 ! Suc i = ?r1 ! Suc i"
    by (rule nth_shuffle_choices_above [OF ok1]) simp
  moreover have "shuffle_choices i js1' ?r1' ! Suc i = ?r1' ! Suc i"
    by (rule nth_shuffle_choices_above [OF ok1']) simp
  ultimately have "?r1 ! Suc i = ?r1' ! Suc i"
    using eq by simp
  then have "r ! j = r ! j'"
    using j j' Suc.prems(2) by (simp only: swap_nth_top)
  then have jj: "j = j'"
    using Suc.prems(1,2) j j' by (simp add: nth_eq_iff_index_eq)
  have "distinct ?r1" using Suc.prems(1,2) j by simp
  moreover have "i < length ?r1" using Suc.prems(2) by simp
  ultimately have "js1 = js1'"
    using ok1 ok1' eq unfolding jj by (rule Suc.IH)
  with jj show ?case by (simp add: js js')
qed

lemma mset_take_swap:
  assumes "j \<le> i" "i < length r"
  shows "mset (take (Suc i) (r[i := r ! j, j := r ! i])) = mset (take (Suc i) r)"
proof -
  let ?T = "take (Suc i) r"
  have "take (Suc i) (r[i := r ! j, j := r ! i]) = ?T[i := ?T ! j, j := ?T ! i]"
    using assms by (simp add: take_update_swap)
  moreover have "mset (?T[i := ?T ! j, j := ?T ! i]) = mset ?T"
    using assms by (intro mset_swap) simp_all
  ultimately show ?thesis by (simp only:)
qed

lemma shuffle_choices_surj:
  "distinct r \<Longrightarrow> i < length r \<Longrightarrow> length t = length r \<Longrightarrow>
   drop (Suc i) t = drop (Suc i) r \<Longrightarrow> mset (take (Suc i) t) = mset (take (Suc i) r) \<Longrightarrow>
   \<exists>js. choices_ok i js \<and> shuffle_choices i js r = t"
proof (induction i arbitrary: r)
  case 0
  from 0 have "take 1 t = take 1 r"
    by (cases t; cases r) simp_all
  with 0 have "t = r"
    by (metis One_nat_def append_take_drop_id)
  then show ?case by simp
next
  case (Suc i)
  let ?x = "t ! Suc i"
  have "?x \<in> set (take (Suc (Suc i)) t)"
    using Suc.prems(2,3) by (simp add: take_Suc_conv_app_nth)
  then have "?x \<in> set (take (Suc (Suc i)) r)"
    using Suc.prems(5) by (metis mset_eq_setD)
  then obtain j where "j < length (take (Suc (Suc i)) r)" "take (Suc (Suc i)) r ! j = ?x"
    unfolding in_set_conv_nth by blast
  then have j: "j \<le> Suc i" and rj: "r ! j = ?x"
    by simp_all
  let ?r1 = "r[Suc i := r ! j, j := r ! Suc i]"
  have top: "?r1 ! Suc i = ?x"
    using swap_nth_top [OF j Suc.prems(2)] rj by (simp only:)
  have d: "distinct ?r1" using Suc.prems(1,2) j by simp
  have l: "i < length ?r1" using Suc.prems(2) by simp
  have lt: "length t = length ?r1" using Suc.prems(3) by simp
  have "drop (Suc (Suc i)) ?r1 = drop (Suc (Suc i)) r"
    using j by simp
  then have dr: "drop (Suc i) t = drop (Suc i) ?r1"
    using Suc.prems(2,3,4) top
    by (metis Cons_nth_drop_Suc length_list_update)
  have "mset (take (Suc (Suc i)) ?r1) = mset (take (Suc (Suc i)) t)"
    using mset_take_swap [OF j Suc.prems(2)] Suc.prems(5) by simp
  moreover have "take (Suc (Suc i)) ?r1 = take (Suc i) ?r1 @ [?x]"
    using Suc.prems(2) top by (simp add: take_Suc_conv_app_nth del: list_update.simps)
  moreover have "take (Suc (Suc i)) t = take (Suc i) t @ [?x]"
    using Suc.prems(2,3) by (simp add: take_Suc_conv_app_nth)
  ultimately have ms: "mset (take (Suc i) t) = mset (take (Suc i) ?r1)"
    by simp
  from Suc.IH [OF d l lt dr ms] obtain js where "choices_ok i js" "shuffle_choices i js ?r1 = t"
    by blast
  with j have "choices_ok (Suc i) (j # js) \<and> shuffle_choices (Suc i) (j # js) r = t"
    by simp
  then show ?case by blast
qed

lemma shuffle_choices_ex1:
  assumes "distinct xs" "mset ys = mset xs"
  shows "\<exists>!js. choices_ok (length xs - 1) js \<and> shuffle_choices (length xs - 1) js xs = ys"
proof (cases "xs = []")
  case True
  with assms show ?thesis by auto
next
  case False
  then have i: "length xs - 1 < length xs" by (cases xs) simp_all
  then have S: "Suc (length xs - 1) = length xs" by simp
  have len: "length ys = length xs" using assms(2) by (rule mset_eq_length)
  have "\<exists>js. choices_ok (length xs - 1) js \<and> shuffle_choices (length xs - 1) js xs = ys"
    using assms len by (intro shuffle_choices_surj [OF assms(1) i]) (simp_all add: S)
  then obtain js where js: "choices_ok (length xs - 1) js" "shuffle_choices (length xs - 1) js xs = ys"
    by blast
  show ?thesis
  proof (rule ex1I [of _ js])
    show "choices_ok (length xs - 1) js \<and> shuffle_choices (length xs - 1) js xs = ys"
      using js by simp
  next
    fix js'
    assume "choices_ok (length xs - 1) js' \<and> shuffle_choices (length xs - 1) js' xs = ys"
    then show "js' = js"
      using shuffle_choices_inj [OF assms(1) i, of js' js] js by simp
  qed
qed


lemma draws_shift: "draws u i (Suc k) = draws (\<lambda>k. u (Suc k)) i k"
  by (induction i arbitrary: k) simp_all

lemma random_index_ratio: "j \<le> i \<Longrightarrow> random_index (real j / real (i + 1)) i = j"
  by (simp add: random_index_def)

lemma choices_ok_drawn:
  "choices_ok i js \<Longrightarrow> \<exists>u. rng_ok u \<and> draws u i 0 = js"
proof (induction i arbitrary: js)
  case 0
  have "rng_ok (\<lambda>_. 0)" by (simp add: rng_ok_def)
  with 0 show ?case by auto
next
  case (Suc i)
  then obtain j js1 where js: "js = j # js1" and j: "j \<le> Suc i" and ok1: "choices_ok i js1"
    by (cases js) auto
  from Suc.IH [OF ok1] obtain u1 where u1: "rng_ok u1" "draws u1 i 0 = js1"
    by blast
  let ?u = "\<lambda>k. case k of 0 \<Rightarrow> real j / real (Suc i + 1) | Suc k' \<Rightarrow> u1 k'"
  have "rng_ok ?u"
    unfolding rng_ok_def
  proof
    fix k
    show "0 \<le> ?u k \<and> ?u k < 1"
      using u1(1) j by (cases k) (simp_all add: rng_ok_def)
  qed
  moreover have "draws ?u (Suc i) 0 = js"
    using random_index_ratio [OF j] u1(2) by (simp add: draws_shift js)
  ultimately show ?case by blast
qed

lemma snd_shuffle: "snd (shuffle xs u k) = k + (length xs - 1)"
  by (simp add: shuffle_def shuffle_loop_choices)

lemma fst_shuffle:
  "fst (shuffle xs u k) = shuffle_choices (length xs - 1) (draws u (length xs - 1) k) xs"
  by (simp add: shuffle_def shuffle_loop_choices)

lemma length_fst_shuffle [simp]: "length (fst (shuffle xs u k)) = length xs"
  by (simp add: fst_shuffle)

lemma mset_fst_shuffle: "rng_ok u \<Longrightarrow> mset (fst (shuffle xs u k)) = mset xs"
proof (cases "xs = []")
  case True
  then show ?thesis by (simp add: fst_shuffle)
next
  case False
  assume "rng_ok u"
  moreover from False have "length xs - 1 < length xs" by (cases xs) simp_all
  ultimately show ?thesis
    unfolding fst_shuffle by (intro mset_shuffle_choices choices_ok_draws)
qed

lemma generate_loop_step:
  "generate_loop ids m u a s =
     (if a < m then
        if isDerangement ids (fst (shuffle ids u (random_calls s)))
        then (Some (make_assignments ids (fst (shuffle ids u (random_calls s)))),
              s\<lparr>random_calls := random_calls s + (length ids - 1),
                console := console s @ [Log_generated (a + 1)]\<rparr>)
        else generate_loop ids m u (a + 1) (s\<lparr>random_calls := random_calls s + (length ids - 1)\<rparr>)
      else (None, s\<lparr>console := console s @ [Error_failed m]\<rparr>))"
  by (subst generate_loop.simps) (simp add: case_prod_beta snd_shuffle)

lemma generate_loop_exhausted:
  "(\<forall>b. a \<le> b \<and> b < m \<longrightarrow>
      \<not> isDerangement ids (fst (shuffle ids u (random_calls s + (b - a) * (length ids - 1))))) \<Longrightarrow>
   generate_loop ids m u a s =
     (None, s\<lparr>random_calls := random_calls s + (m - a) * (length ids - 1),
              console := console s @ [Error_failed m]\<rparr>)"
proof (induction "m - a" arbitrary: a s)
  case 0
  then show ?case by (subst generate_loop_step) simp
next
  case (Suc d)
  then have am: "a < m" and d: "d = m - (a + 1)" by simp_all
  from Suc.prems am have no: "\<not> isDerangement ids (fst (shuffle ids u (random_calls s)))"
    by (metis cancel_comm_monoid_add_class.diff_cancel le_refl mult_zero_left add.right_neutral)
  let ?s = "s\<lparr>random_calls := random_calls s + (length ids - 1)\<rparr>"
  have "\<forall>b. a + 1 \<le> b \<and> b < m \<longrightarrow>
      \<not> isDerangement ids (fst (shuffle ids u (random_calls ?s + (b - (a + 1)) * (length ids - 1))))"
  proof (intro allI impI)
    fix b assume b: "a + 1 \<le> b \<and> b < m"
    then have "b - a = Suc (b - (a + 1))" by arith
    then have "random_calls ?s + (b - (a + 1)) * (length ids - 1)
        = random_calls s + (b - a) * (length ids - 1)" by simp
    with Suc.prems b show "\<not> isDerangement ids
        (fst (shuffle ids u (random_calls ?s + (b - (a + 1)) * (length ids - 1))))"
      by (metis Suc_eq_plus1 Suc_leD)
  qed
  from Suc.hyps(1) [OF d this] have "generate_loop ids m u (a + 1) ?s =
     (None, ?s\<lparr>random_calls := random_calls ?s + (m - (a + 1)) * (length ids - 1),
              console := console ?s @ [Error_failed m]\<rparr>)" .
  moreover have "m - a = Suc (m - (a + 1))" using am by simp
  ultimately show ?case
    using am no by (subst generate_loop_step) simp
qed

lemma generate_loop_found:
  "a \<le> b \<Longrightarrow> b < m \<Longrightarrow>
   (\<forall>c. a \<le> c \<and> c < b \<longrightarrow>
      \<not> isDerangement ids (fst (shuffle ids u (random_calls s + (c - a) * (length ids - 1))))) \<Longrightarrow>
   isDerangement ids (fst (shuffle ids u (random_calls s + (b - a) * (length ids - 1)))) \<Longrightarrow>
   generate_loop ids m u a s =
     (Some (make_assignments ids (fst (shuffle ids u (random_calls s + (b - a) * (length ids - 1))))),
      s\<lparr>random_calls := random_calls s + (b - a + 1) * (length ids - 1),
        console := console s @ [Log_generated (b + 1)]\<rparr>)"
proof (induction "b - a" arbitrary: a s)
  case 0
  then have "b = a" by simp
  with 0 show ?case by (subst generate_loop_step) simp
next
  case (Suc d)
  then have ab: "a < b" and am: "a < m" and d: "d = b - (a + 1)" by simp_all
  from Suc.prems(3) ab have no: "\<not> isDerangement ids (fst (shuffle ids u (random_calls s)))"
    by (metis cancel_comm_monoid_add_class.diff_cancel le_refl mult_zero_left add.right_neutral)
  let ?s = "s\<lparr>random_calls := random_calls s + (length ids - 1)\<rparr>"
  have shift: "random_calls ?s + (c - (a + 1)) * (length ids - 1)
        = random_calls s + (c - a) * (length ids - 1)" if "a + 1 \<le> c" for c
  proof -
    from that have "c - a = Suc (c - (a + 1))" by simp
    then show ?thesis by simp
  qed
  have 1: "a + 1 \<le> b" using ab by simp
  have 3: "\<forall>c. a + 1 \<le> c \<and> c < b \<longrightarrow>
      \<not> isDerangement ids (fst (shuffle ids u (random_calls ?s + (c - (a + 1)) * (length ids - 1))))"
  proof (intro allI impI)
    fix c assume c: "a + 1 \<le> c \<and> c < b"
    with Suc.prems(3) have n: "\<not> isDerangement ids
        (fst (shuffle ids u (random_calls s + (c - a) * (length ids - 1))))"
      by (metis Suc_eq_plus1 Suc_leD)
    have e: "random_calls ?s + (c - (a + 1)) * (length ids - 1)
        = random_calls s + (c - a) * (length ids - 1)"
      using c by (intro shift) simp
    show "\<not> isDerangement ids
        (fst (shuffle ids u (random_calls ?s + (c - (a + 1)) * (length ids - 1))))"
      unfolding e by (rule n)
  qed
  have 4: "isDerangement ids (fst (shuffle ids u (random_calls ?s + (b - (a + 1)) * (length ids - 1))))"
    using Suc.prems(4) by (simp only: shift [OF 1])
  have ih: "generate_loop ids m u (a + 1) ?s =
     (Some (make_assignments ids (fst (shuffle ids u (random_calls ?s + (b - (a + 1)) * (length ids - 1))))),
      ?s\<lparr>random_calls := random_calls ?s + (b - (a + 1) + 1) * (length ids - 1),
        console := console ?s @ [Log_generated (b + 1)]\<rparr>)"
    using d 1 Suc.prems(2) 3 4 by (rule Suc.hyps(1))
  have "b - a + 1 = Suc (b - (a + 1) + 1)" using ab by arith
  then have calls: "random_calls ?s + (b - (a + 1) + 1) * (length ids - 1)
      = random_calls s + (b - a + 1) * (length ids - 1)"
    by simp
  have rec: "generate_loop ids m u (a + 1) ?s =
     (Some (make_assignments ids (fst (shuffle ids u (random_calls s + (b - a) * (length ids - 1))))),
      s\<lparr>random_calls := random_calls s + (b - a + 1) * (length ids - 1),
        console := console s @ [Log_generated (b + 1)]\<rparr>)"
    unfolding ih shift [OF 1] calls by simp
  show ?case
    using am no rec by (subst generate_loop_step) simp
qed


lemma isDerangement_iff:
  "length shuffled = length original \<Longrightarrow>
   isDerangement original shuffled \<longleftrightarrow> (\<forall>k < length original. original ! k \<noteq> shuffled ! k)"
proof (induction original shuffled rule: isDerangement.induct)
  case (3 x original y shuffled)
  then show ?case by (auto simp: nth_Cons split: nat.splits)
qed simp_all

lemma length_make_assignments [simp]: "length (make_assignments ids sh) = length ids"
  by (simp add: make_assignments_def)

lemma nth_make_assignments:
  "k < length ids \<Longrightarrow> make_assignments ids sh ! k = \<lparr>giverId = ids ! k, receiverId = sh ! k\<rparr>"
  by (simp add: make_assignments_def)

lemma map_giverId_make_assignments: "map giverId (make_assignments ids sh) = ids"
  by (simp add: make_assignments_def comp_def map_nth)

lemma map_receiverId_make_assignments:
  "length sh = length ids \<Longrightarrow> map receiverId (make_assignments ids sh) = sh"
  by (simp add: make_assignments_def comp_def) (metis map_nth)

lemma generate_loop_cases:
  obtains (found) b where "a \<le> b" "b < m"
      "isDerangement ids (fst (shuffle ids u (random_calls s + (b - a) * (length ids - 1))))"
      "generate_loop ids m u a s =
        (Some (make_assignments ids (fst (shuffle ids u (random_calls s + (b - a) * (length ids - 1))))),
         s\<lparr>random_calls := random_calls s + (b - a + 1) * (length ids - 1),
           console := console s @ [Log_generated (b + 1)]\<rparr>)"
  | (exhausted)
      "\<forall>b. a \<le> b \<and> b < m \<longrightarrow>
         \<not> isDerangement ids (fst (shuffle ids u (random_calls s + (b - a) * (length ids - 1))))"
      "generate_loop ids m u a s =
        (None, s\<lparr>random_calls := random_calls s + (m - a) * (length ids - 1),
                 console := console s @ [Error_failed m]\<rparr>)"
proof -
  let ?P = "\<lambda>b. a \<le> b \<and> b < m \<and>
      isDerangement ids (fst (shuffle ids u (random_calls s + (b - a) * (length ids - 1))))"
  show thesis
  proof (cases "\<exists>b. ?P b")
    case True
    define b where "b = (LEAST b. ?P b)"
    have Pb: "?P b" unfolding b_def using True by (rule LeastI_ex)
    have least: "\<not> ?P c" if "c < b" for c
      using that not_less_Least unfolding b_def by blast
    have "\<forall>c. a \<le> c \<and> c < b \<longrightarrow>
      \<not> isDerangement ids (fst (shuffle ids u (random_calls s + (c - a) * (length ids - 1))))"
      using least Pb by (meson less_trans)
    with Pb have "generate_loop ids m u a s =
        (Some (make_assignments ids (fst (shuffle ids u (random_calls s + (b - a) * (length ids - 1))))),
         s\<lparr>random_calls := random_calls s + (b - a + 1) * (length ids - 1),
           console := console s @ [Log_generated (b + 1)]\<rparr>)"
      by (intro generate_loop_found) simp_all
    with Pb show thesis by (intro found [of b]) simp_all
  next
    case False
    then have no: "\<forall>b. a \<le> b \<and> b < m \<longrightarrow>
         \<not> isDerangement ids (fst (shuffle ids u (random_calls s + (b - a) * (length ids - 1))))"
      by blast
    from no generate_loop_exhausted [OF no] show thesis by (rule exhausted)
  qed
qed

lemma generate_loop_Some:
  assumes "fst (generate_loop ids m u a s) = Some as"
  shows "\<exists>k. isDerangement ids (fst (shuffle ids u k)) \<and> as = make_assignments ids (fst (shuffle ids u k))"
proof (cases rule: generate_loop_cases [of a m ids u s])
  case (found b)
  with assms show ?thesis by auto
next
  case exhausted
  with assms show ?thesis by simp
qed

lemma generate_loop_calls:
  "\<exists>n \<le> m - a. random_calls (snd (generate_loop ids m u a s)) = random_calls s + n * (length ids - 1)"
proof (cases rule: generate_loop_cases [of a m ids u s])
  case (found b)
  then have "b - a + 1 \<le> m - a" by simp
  with found(4) show ?thesis by (intro exI [of _ "b - a + 1"]) simp
next
  case exhausted
  then show ?thesis by (intro exI [of _ "m - a"]) simp
qed

lemma shuffle_pair:
  assumes "0 \<le> r" "r < 1" "r = u k"
  shows "fst (shuffle [x, y] u k) = (if r < 1 / 2 then [y, x] else [x, y])"
proof (cases "r < 1 / 2")
  case True
  with assms have "\<lfloor>r * 2\<rfloor> = 0" by (intro floor_unique) simp_all
  with True assms(3) show ?thesis
    by (simp add: shuffle_def random_index_def)
next
  case False
  with assms have "\<lfloor>r * 2\<rfloor> = 1" by (intro floor_unique) simp_all
  with False assms(3) show ?thesis
    by (simp add: shuffle_def random_index_def)
qed

lemma isDerangement_pair:
  "rng_ok u \<Longrightarrow> isDerangement [x, y] (fst (shuffle [x, y] u k)) \<longleftrightarrow> x \<noteq> y \<and> u k < 1 / 2"
  using shuffle_pair [of "u k" u k x y] by (auto simp: rng_ok_def)

lemma generateDerangement_Some:
  assumes "fst (generateDerangement ps m u s) = Some as"
  shows "\<exists>k. isDerangement (map id' ps) (fst (shuffle (map id' ps) u k))
           \<and> as = make_assignments (map id' ps) (fst (shuffle (map id' ps) u k))"
proof -
  from assms have "fst (generate_loop (map id' ps) m u 0 s) = Some as"
    by (simp add: generateDerangement_def split: if_splits)
  then show ?thesis by (rule generate_loop_Some)
qed

lemma generate_XY:
  "generateDerangement [\<lparr>id' = ''X'', name = ''Xu''\<rparr>, \<lparr>id' = ''Y'', name = ''Yan''\<rparr>] 1000
          (\<lambda>_. 0) \<lparr>random_calls = 0, console = []\<rparr>
      = (Some [\<lparr>giverId = ''X'', receiverId = ''Y''\<rparr>, \<lparr>giverId = ''Y'', receiverId = ''X''\<rparr>],
         \<lparr>random_calls = 1, console = [Log_generated 1]\<rparr>)"
  by (simp add: generateDerangement_def generate_loop_step shuffle_def random_index_def
      make_assignments_def)

lemma generateDerangement_calls:
  assumes "2 \<le> length ps"
  shows "\<exists>a \<le> m. random_calls (snd (generateDerangement ps m u s))
           = random_calls s + a * (length ps - 1)"
  using assms generate_loop_calls [of m 0 "map id' ps" u s]
  by (simp add: generateDerangement_def)

lemma generateDerangement_exhausted:
  assumes "2 \<le> length ps"
    and "\<forall>a < m. \<not> isDerangement (map id' ps)
           (fst (shuffle (map id' ps) u (random_calls s + a * (length ps - 1))))"
  shows "generateDerangement ps m u s =
     (None, s\<lparr>random_calls := random_calls s + m * (length ps - 1),
              console := console s @ [Error_failed m]\<rparr>)"
  using assms generate_loop_exhausted [of 0 m "map id' ps" u s]
  by (simp add: generateDerangement_def)

lemma generateDerangement_None:
  assumes "2 \<le> length ps" and "fst (generateDerangement ps m u s) = None"
  shows "\<forall>a < m. \<not> isDerangement (map id' ps)
           (fst (shuffle (map id' ps) u (random_calls s + a * (length ps - 1))))"
proof (cases rule: generate_loop_cases [of 0 m "map id' ps" u s])
  case (found b)
  with assms show ?thesis by (simp add: generateDerangement_def)
next
  case exhausted
  then show ?thesis by simp
qed

lemma generate_pair:
  assumes "rng_ok u"
  shows "fst (generateDerangement [X, Y] m u s) =
     (if id' X \<noteq> id' Y \<and> (\<exists>a < m. u (random_calls s + a) < 1 / 2)
      then Some [\<lparr>giverId = id' X, receiverId = id' Y\<rparr>, \<lparr>giverId = id' Y, receiverId = id' X\<rparr>]
      else None)"
proof (cases rule: generate_loop_cases [of 0 m "[id' X, id' Y]" u s])
  case (found b)
  from found(3) have xy: "id' X \<noteq> id' Y" and b: "u (random_calls s + b) < 1 / 2"
    unfolding isDerangement_pair [OF assms] by simp_all
  have "fst (shuffle [id' X, id' Y] u (random_calls s + b)) = [id' Y, id' X]"
    using shuffle_pair [of "u (random_calls s + b)" u "random_calls s + b" "id' X" "id' Y"] assms b
    by (simp add: rng_ok_def)
  with found(4) have "fst (generateDerangement [X, Y] m u s)
      = Some [\<lparr>giverId = id' X, receiverId = id' Y\<rparr>, \<lparr>giverId = id' Y, receiverId = id' X\<rparr>]"
    by (simp add: generateDerangement_def make_assignments_def upt_rec)
  with xy b found(2) show ?thesis by auto
next
  case exhausted
  from exhausted(1) have "\<not> (id' X \<noteq> id' Y \<and> (\<exists>a < m. u (random_calls s + a) < 1 / 2))"
    unfolding isDerangement_pair [OF assms] by auto
  with exhausted(2) show ?thesis
    by (simp add: generateDerangement_def)
qed

lemma rng_ok_const: "0 \<le> c \<Longrightarrow> c < 1 \<Longrightarrow> rng_ok (\<lambda>_. c)"
  by (simp add: rng_ok_def)

lemma generate_pair_half:
  "generateDerangement [X, Y] m (\<lambda>_. 1 / 2) s
     = (None, s\<lparr>random_calls := random_calls s + m, console := console s @ [Error_failed m]\<rparr>)"
proof -
  have ok: "rng_ok (\<lambda>_. 1 / 2)" by (simp add: rng_ok_const)
  have "\<forall>a < m. \<not> isDerangement (map id' [X, Y])
           (fst (shuffle (map id' [X, Y]) (\<lambda>_. 1 / 2) (random_calls s + a * (length [X, Y] - 1))))"
    by (simp add: isDerangement_pair [OF ok])
  then have "generateDerangement [X, Y] m (\<lambda>_. 1 / 2) s =
     (None, s\<lparr>random_calls := random_calls s + m * (length [X, Y] - 1),
              console := console s @ [Error_failed m]\<rparr>)"
    by (intro generateDerangement_exhausted) simp_all
  then show ?thesis by simp
qed

lemma generate_pair_three_quarters:
  "fst (generateDerangement [X, Y] m (\<lambda>_. 3 / 4) s) = None"
proof -
  have ok: "rng_ok (\<lambda>_. 3 / 4)" by (simp add: rng_ok_const)
  show ?thesis unfolding generate_pair [OF ok] by simp
qed

section \<open>The claims\<close>

text \<open>
  C1. The validator returns true exactly when: there are as many assignments as
  participants; every giverId and every receiverId is the id of a participant; no assignment
  has its giverId equal to its receiverId; no giverId and no receiverId occurs twice; and the
  number of distinct givers and of distinct receivers is the number of participants. For
  the participants A, B, C the assignments A to B, B to C, C to A are accepted, and each
  tampering is rejected: A to A in place of A to B; the duplicated receiver A to B, B to B,
  C to A; a dropped assignment; an unknown id (as receiver, or as giver).
\<close>

theorem validateAssignments_characterisation:
  "(validateAssignments participants assignments \<longleftrightarrow>
      length assignments = length participants
      \<and> (\<forall>a \<in> set assignments.
            giverId a \<in> set (map id' participants) \<and> receiverId a \<in> set (map id' participants))
      \<and> (\<forall>a \<in> set assignments. giverId a \<noteq> receiverId a)
      \<and> distinct (map giverId assignments) \<and> distinct (map receiverId assignments)
      \<and> card (set (map giverId assignments)) = length participants
      \<and> card (set (map receiverId assignments)) = length participants)
   \<and> (let A = \<lparr>id' = ''A'', name = ''Ada''\<rparr>; B = \<lparr>id' = ''B'', name = ''Bob''\<rparr>;
           C = \<lparr>id' = ''C'', name = ''Cem''\<rparr>;
           to = (\<lambda>g r. \<lparr>giverId = g, receiverId = r\<rparr>)
       in validateAssignments [A, B, C] [to ''A'' ''B'', to ''B'' ''C'', to ''C'' ''A'']
        \<and> \<not> validateAssignments [A, B, C] [to ''A'' ''A'', to ''B'' ''C'', to ''C'' ''A'']
        \<and> \<not> validateAssignments [A, B, C] [to ''A'' ''B'', to ''B'' ''B'', to ''C'' ''A'']
        \<and> \<not> validateAssignments [A, B, C] [to ''A'' ''B'', to ''B'' ''C'']
        \<and> \<not> validateAssignments [A, B, C] [to ''A'' ''B'', to ''B'' ''C'', to ''C'' ''D'']
        \<and> \<not> validateAssignments [A, B, C] [to ''A'' ''B'', to ''B'' ''C'', to ''D'' ''A''])"
proof (rule conjI)
  show "validateAssignments participants assignments \<longleftrightarrow>
      length assignments = length participants
      \<and> (\<forall>a \<in> set assignments.
            giverId a \<in> set (map id' participants) \<and> receiverId a \<in> set (map id' participants))
      \<and> (\<forall>a \<in> set assignments. giverId a \<noteq> receiverId a)
      \<and> distinct (map giverId assignments) \<and> distinct (map receiverId assignments)
      \<and> card (set (map giverId assignments)) = length participants
      \<and> card (set (map receiverId assignments)) = length participants"
    unfolding validateAssignments_iff by blast
next
  show "let A = \<lparr>id' = ''A'', name = ''Ada''\<rparr>; B = \<lparr>id' = ''B'', name = ''Bob''\<rparr>;
           C = \<lparr>id' = ''C'', name = ''Cem''\<rparr>;
           to = (\<lambda>g r. \<lparr>giverId = g, receiverId = r\<rparr>)
       in validateAssignments [A, B, C] [to ''A'' ''B'', to ''B'' ''C'', to ''C'' ''A'']
        \<and> \<not> validateAssignments [A, B, C] [to ''A'' ''A'', to ''B'' ''C'', to ''C'' ''A'']
        \<and> \<not> validateAssignments [A, B, C] [to ''A'' ''B'', to ''B'' ''B'', to ''C'' ''A'']
        \<and> \<not> validateAssignments [A, B, C] [to ''A'' ''B'', to ''B'' ''C'']
        \<and> \<not> validateAssignments [A, B, C] [to ''A'' ''B'', to ''B'' ''C'', to ''C'' ''D'']
        \<and> \<not> validateAssignments [A, B, C] [to ''A'' ''B'', to ''B'' ''C'', to ''D'' ''A'']"
    by (simp add: validateAssignments_def Let_def)
qed

theorem validateAssignments_characterisation_witness:
  "validateAssignments
     [\<lparr>id' = ''A'', name = ''Ada''\<rparr>, \<lparr>id' = ''B'', name = ''Bob''\<rparr>]
     [\<lparr>giverId = ''A'', receiverId = ''B''\<rparr>, \<lparr>giverId = ''B'', receiverId = ''A''\<rparr>]
   \<and> \<not> validateAssignments
     [\<lparr>id' = ''A'', name = ''Ada''\<rparr>, \<lparr>id' = ''B'', name = ''Bob''\<rparr>]
     [\<lparr>giverId = ''A'', receiverId = ''B''\<rparr>, \<lparr>giverId = ''B'', receiverId = ''B''\<rparr>]"
proof -
  note c = validateAssignments_characterisation [THEN conjunct1]
  have "validateAssignments
     [\<lparr>id' = ''A'', name = ''Ada''\<rparr>, \<lparr>id' = ''B'', name = ''Bob''\<rparr>]
     [\<lparr>giverId = ''A'', receiverId = ''B''\<rparr>, \<lparr>giverId = ''B'', receiverId = ''A''\<rparr>]"
    unfolding c by simp
  moreover have "\<not> validateAssignments
     [\<lparr>id' = ''A'', name = ''Ada''\<rparr>, \<lparr>id' = ''B'', name = ''Bob''\<rparr>]
     [\<lparr>giverId = ''A'', receiverId = ''B''\<rparr>, \<lparr>giverId = ''B'', receiverId = ''B''\<rparr>]"
    unfolding c by simp
  ultimately show ?thesis by (rule conjI)
qed

text \<open>
  C2. For every participant list and every outcome of the random draws, when the
  generator returns an assignment list: the giverIds, in order, are the participant ids in
  their original order; the receiverIds are a permutation of the participant ids; and at
  every position the receiverId differs from the giverId.
\<close>

theorem generateDerangement_success:
  assumes "rng_ok u"
    and "fst (generateDerangement participants maxAttempts u s) = Some assignments"
  shows "map giverId assignments = map id' participants
       \<and> mset (map receiverId assignments) = mset (map id' participants)
       \<and> (\<forall>k < length assignments. receiverId (assignments ! k) \<noteq> giverId (assignments ! k))"
proof -
  let ?ids = "map id' participants"
  from generateDerangement_Some [OF assms(2)] obtain k
    where der: "isDerangement ?ids (fst (shuffle ?ids u k))"
      and as: "assignments = make_assignments ?ids (fst (shuffle ?ids u k))"
    by blast
  let ?sh = "fst (shuffle ?ids u k)"
  have len: "length ?sh = length ?ids" by simp
  have "map giverId assignments = ?ids"
    unfolding as by (rule map_giverId_make_assignments)
  moreover have "map receiverId assignments = ?sh"
    unfolding as using len by (rule map_receiverId_make_assignments)
  then have "mset (map receiverId assignments) = mset ?ids"
    by (simp only: mset_fst_shuffle [OF assms(1)])
  moreover have "\<forall>k < length assignments. receiverId (assignments ! k) \<noteq> giverId (assignments ! k)"
  proof (intro allI impI)
    fix i assume "i < length assignments"
    then have i: "i < length ?ids" by (simp add: as)
    with der have "?ids ! i \<noteq> ?sh ! i"
      unfolding isDerangement_iff [OF len] by blast
    then show "receiverId (assignments ! i) \<noteq> giverId (assignments ! i)"
      unfolding as nth_make_assignments [OF i] by simp
  qed
  ultimately show ?thesis by blast
qed

theorem generateDerangement_success_witness:
  "rng_ok (\<lambda>_. 0)
   \<and> fst (generateDerangement [\<lparr>id' = ''X'', name = ''Xu''\<rparr>, \<lparr>id' = ''Y'', name = ''Yan''\<rparr>] 1000
          (\<lambda>_. 0) \<lparr>random_calls = 0, console = []\<rparr>)
      = Some [\<lparr>giverId = ''X'', receiverId = ''Y''\<rparr>, \<lparr>giverId = ''Y'', receiverId = ''X''\<rparr>]
   \<and> map giverId [\<lparr>giverId = ''X'', receiverId = ''Y''\<rparr>, \<lparr>giverId = ''Y'', receiverId = ''X''\<rparr>]
      = map id' [\<lparr>id' = ''X'', name = ''Xu''\<rparr>, \<lparr>id' = ''Y'', name = ''Yan''\<rparr>]
   \<and> mset (map receiverId [\<lparr>giverId = ''X'', receiverId = ''Y''\<rparr>, \<lparr>giverId = ''Y'', receiverId = ''X''\<rparr>])
      = mset (map id' [\<lparr>id' = ''X'', name = ''Xu''\<rparr>, \<lparr>id' = ''Y'', name = ''Yan''\<rparr>])"
proof -
  have ok: "rng_ok (\<lambda>_. 0)" by (simp add: rng_ok_def)
  have g: "fst (generateDerangement [\<lparr>id' = ''X'', name = ''Xu''\<rparr>, \<lparr>id' = ''Y'', name = ''Yan''\<rparr>] 1000
          (\<lambda>_. 0) \<lparr>random_calls = 0, console = []\<rparr>)
      = Some [\<lparr>giverId = ''X'', receiverId = ''Y''\<rparr>, \<lparr>giverId = ''Y'', receiverId = ''X''\<rparr>]"
    by (simp add: generate_XY)
  from generateDerangement_success [OF ok g] ok g show ?thesis by blast
qed

text \<open>
  C3. For every participant list with pairwise distinct ids and every outcome of the
  random draws, the validator accepts whatever the generator returns.
\<close>

theorem validateAssignments_generateDerangement:
  assumes "distinct (map id' participants)" and "rng_ok u"
    and "fst (generateDerangement participants maxAttempts u s) = Some assignments"
  shows "validateAssignments participants assignments"
proof -
  let ?ids = "map id' participants"
  from generateDerangement_Some [OF assms(3)] obtain k
    where der: "isDerangement ?ids (fst (shuffle ?ids u k))"
      and as: "assignments = make_assignments ?ids (fst (shuffle ?ids u k))"
    by blast
  let ?sh = "fst (shuffle ?ids u k)"
  have len: "length ?sh = length ?ids" by simp
  have ms: "mset ?sh = mset ?ids" using assms(2) by (rule mset_fst_shuffle)
  have g: "map giverId assignments = ?ids"
    unfolding as by (rule map_giverId_make_assignments)
  have r: "map receiverId assignments = ?sh"
    unfolding as using len by (rule map_receiverId_make_assignments)
  have dsh: "distinct ?sh"
    using ms assms(1) by (metis mset_eq_imp_distinct_iff)
  have "length assignments = length participants" by (simp add: as)
  moreover have "\<forall>a \<in> set assignments. giverId a \<in> set ?ids \<and> receiverId a \<in> set ?ids
      \<and> giverId a \<noteq> receiverId a"
  proof
    fix a assume "a \<in> set assignments"
    then obtain i where i: "i < length ?ids" and a: "a = \<lparr>giverId = ?ids ! i, receiverId = ?sh ! i\<rparr>"
      unfolding as in_set_conv_nth by (auto simp: nth_make_assignments simp del: length_map)
    from i len have "?sh ! i \<in> set ?sh" by (metis nth_mem)
    then have "?sh ! i \<in> set ?ids" using ms by (metis mset_eq_setD)
    moreover from i have "?ids ! i \<in> set ?ids" by (metis nth_mem)
    moreover from der i have "?ids ! i \<noteq> ?sh ! i"
      unfolding isDerangement_iff [OF len] by blast
    ultimately show "giverId a \<in> set ?ids \<and> receiverId a \<in> set ?ids \<and> giverId a \<noteq> receiverId a"
      by (simp add: a)
  qed
  moreover have "distinct (map giverId assignments)" "distinct (map receiverId assignments)"
    unfolding g r using assms(1) dsh by simp_all
  moreover have "card (set (map giverId assignments)) = length participants"
    unfolding g using distinct_card [OF assms(1)] by simp
  moreover have "card (set (map receiverId assignments)) = length participants"
    unfolding r using distinct_card [OF dsh] by simp
  ultimately show ?thesis
    unfolding validateAssignments_iff by blast
qed

theorem validateAssignments_generateDerangement_witness:
  "distinct (map id' [\<lparr>id' = ''X'', name = ''Xu''\<rparr>, \<lparr>id' = ''Y'', name = ''Yan''\<rparr>])
   \<and> rng_ok (\<lambda>_. 0)
   \<and> fst (generateDerangement [\<lparr>id' = ''X'', name = ''Xu''\<rparr>, \<lparr>id' = ''Y'', name = ''Yan''\<rparr>] 1000
          (\<lambda>_. 0) \<lparr>random_calls = 0, console = []\<rparr>)
      = Some [\<lparr>giverId = ''X'', receiverId = ''Y''\<rparr>, \<lparr>giverId = ''Y'', receiverId = ''X''\<rparr>]
   \<and> validateAssignments [\<lparr>id' = ''X'', name = ''Xu''\<rparr>, \<lparr>id' = ''Y'', name = ''Yan''\<rparr>]
        [\<lparr>giverId = ''X'', receiverId = ''Y''\<rparr>, \<lparr>giverId = ''Y'', receiverId = ''X''\<rparr>]"
proof -
  have d: "distinct (map id' [\<lparr>id' = ''X'', name = ''Xu''\<rparr>, \<lparr>id' = ''Y'', name = ''Yan''\<rparr>])"
    by simp
  have ok: "rng_ok (\<lambda>_. 0)" by (simp add: rng_ok_def)
  have g: "fst (generateDerangement [\<lparr>id' = ''X'', name = ''Xu''\<rparr>, \<lparr>id' = ''Y'', name = ''Yan''\<rparr>] 1000
          (\<lambda>_. 0) \<lparr>random_calls = 0, console = []\<rparr>)
      = Some [\<lparr>giverId = ''X'', receiverId = ''Y''\<rparr>, \<lparr>giverId = ''Y'', receiverId = ''X''\<rparr>]"
    by (simp add: generate_XY)
  from validateAssignments_generateDerangement [OF d ok g] d ok g show ?thesis by blast
qed

text \<open>
  C4. With fewer than 2 participants (none or one) the generator returns \<^verbatim>\<open>null\<close> at once:
  it writes the "need at least 2 participants" error to the console, draws no random
  number and runs no attempt. Nothing on this path can throw.
\<close>

theorem generateDerangement_insufficient:
  "length participants < 2 \<Longrightarrow>
   generateDerangement participants maxAttempts u s =
     (None, s\<lparr>console := console s @ [Error_need_participants]\<rparr>)"
  by (simp add: generateDerangement_def)

theorem generateDerangement_insufficient_witness:
  "length ([] :: participant list) < 2 \<and> length [\<lparr>id' = ''A'', name = ''Ada''\<rparr>] < 2
   \<and> generateDerangement [] 1000 (\<lambda>_. 0) \<lparr>random_calls = 0, console = []\<rparr>
       = (None, \<lparr>random_calls = 0, console = [Error_need_participants]\<rparr>)
   \<and> generateDerangement [\<lparr>id' = ''A'', name = ''Ada''\<rparr>] 1000 (\<lambda>_. 0) \<lparr>random_calls = 0, console = []\<rparr>
       = (None, \<lparr>random_calls = 0, console = [Error_need_participants]\<rparr>)"
  using generateDerangement_insufficient [of "[]" 1000 "\<lambda>_. 0" "\<lparr>random_calls = 0, console = []\<rparr>"]
    generateDerangement_insufficient [of "[\<lparr>id' = ''A'', name = ''Ada''\<rparr>]" 1000 "\<lambda>_. 0"
      "\<lparr>random_calls = 0, console = []\<rparr>"]
  by simp

text \<open>
  C5, as stated, asks for an exhaustion failure that the caller can tell from the failure
  for fewer than 2 participants. The function returns \<^verbatim>\<open>null\<close> in both cases: with two
  participants and 1000 draws of 1/2 (each shuffle is the identity) it returns the same
  value as with one participant; only the console lines differ.
\<close>

theorem generateDerangement_same_failure_value:
  "generateDerangement [\<lparr>id' = ''X'', name = ''Xu''\<rparr>, \<lparr>id' = ''Y'', name = ''Yan''\<rparr>] 1000
       (\<lambda>_. 1 / 2) \<lparr>random_calls = 0, console = []\<rparr>
     = (None, \<lparr>random_calls = 1000, console = [Error_failed 1000]\<rparr>)
   \<and> generateDerangement [\<lparr>id' = ''X'', name = ''Xu''\<rparr>] 1000
       (\<lambda>_. 1 / 2) \<lparr>random_calls = 0, console = []\<rparr>
     = (None, \<lparr>random_calls = 0, console = [Error_need_participants]\<rparr>)
   \<and> fst (generateDerangement [\<lparr>id' = ''X'', name = ''Xu''\<rparr>, \<lparr>id' = ''Y'', name = ''Yan''\<rparr>] 1000
       (\<lambda>_. 1 / 2) \<lparr>random_calls = 0, console = []\<rparr>)
     = fst (generateDerangement [\<lparr>id' = ''X'', name = ''Xu''\<rparr>] 1000
       (\<lambda>_. 1 / 2) \<lparr>random_calls = 0, console = []\<rparr>)"
  by (simp add: generate_pair_half) (simp add: generateDerangement_def)

text \<open>
  C5, amended. For every participant list with at least 2 elements the generator runs at
  most \<open>maxAttempts\<close> shuffles: it draws \<open>a * (n - 1)\<close> random numbers for some
  \<open>a \<le> maxAttempts\<close>, each shuffle of \<open>n\<close> ids drawing \<open>n - 1\<close>. It returns \<^verbatim>\<open>null\<close> exactly
  when none of the \<open>maxAttempts\<close> shuffles is a derangement, and then it has run all of
  them and written the "failed after maxAttempts attempts" error to the console. That
  return value is the one for fewer than 2 participants, where the console line is the
  "need at least 2 participants" error.
\<close>

theorem generateDerangement_attempts:
  assumes "2 \<le> length participants"
  shows "(\<exists>a \<le> maxAttempts.
            random_calls (snd (generateDerangement participants maxAttempts u s))
              = random_calls s + a * (length participants - 1))
       \<and> (fst (generateDerangement participants maxAttempts u s) = None \<longleftrightarrow>
            (\<forall>a < maxAttempts. \<not> isDerangement (map id' participants)
               (fst (shuffle (map id' participants) u
                  (random_calls s + a * (length participants - 1))))))
       \<and> (fst (generateDerangement participants maxAttempts u s) = None \<longrightarrow>
            snd (generateDerangement participants maxAttempts u s)
              = s\<lparr>random_calls := random_calls s + maxAttempts * (length participants - 1),
                  console := console s @ [Error_failed maxAttempts]\<rparr>)
       \<and> (length few < 2 \<longrightarrow>
            generateDerangement few maxAttempts u s
              = (None, s\<lparr>console := console s @ [Error_need_participants]\<rparr>))"
proof (intro conjI impI)
  show "\<exists>a \<le> maxAttempts.
            random_calls (snd (generateDerangement participants maxAttempts u s))
              = random_calls s + a * (length participants - 1)"
    using assms by (rule generateDerangement_calls)
  show "fst (generateDerangement participants maxAttempts u s) = None \<longleftrightarrow>
            (\<forall>a < maxAttempts. \<not> isDerangement (map id' participants)
               (fst (shuffle (map id' participants) u
                  (random_calls s + a * (length participants - 1)))))"
    using generateDerangement_None [OF assms] generateDerangement_exhausted [OF assms]
    by (metis fst_conv)
next
  assume "fst (generateDerangement participants maxAttempts u s) = None"
  with generateDerangement_None [OF assms] generateDerangement_exhausted [OF assms]
  show "snd (generateDerangement participants maxAttempts u s)
              = s\<lparr>random_calls := random_calls s + maxAttempts * (length participants - 1),
                  console := console s @ [Error_failed maxAttempts]\<rparr>"
    by (metis snd_conv)
next
  assume "length few < 2"
  then show "generateDerangement few maxAttempts u s
              = (None, s\<lparr>console := console s @ [Error_need_participants]\<rparr>)"
    by (simp add: generateDerangement_def)
qed


theorem generateDerangement_attempts_witness:
  "2 \<le> length [\<lparr>id' = ''X'', name = ''Xu''\<rparr>, \<lparr>id' = ''Y'', name = ''Yan''\<rparr>]
   \<and> fst (generateDerangement [\<lparr>id' = ''X'', name = ''Xu''\<rparr>, \<lparr>id' = ''Y'', name = ''Yan''\<rparr>] 3
          (\<lambda>_. 1 / 2) \<lparr>random_calls = 0, console = []\<rparr>) = None
   \<and> snd (generateDerangement [\<lparr>id' = ''X'', name = ''Xu''\<rparr>, \<lparr>id' = ''Y'', name = ''Yan''\<rparr>] 3
          (\<lambda>_. 1 / 2) \<lparr>random_calls = 0, console = []\<rparr>)
       = \<lparr>random_calls = 3, console = [Error_failed 3]\<rparr>
   \<and> length [\<lparr>id' = ''X'', name = ''Xu''\<rparr>] < 2
   \<and> generateDerangement [\<lparr>id' = ''X'', name = ''Xu''\<rparr>] 3 (\<lambda>_. 1 / 2) \<lparr>random_calls = 0, console = []\<rparr>
       = (None, \<lparr>random_calls = 0, console = [Error_need_participants]\<rparr>)"
proof -
  let ?XY = "[\<lparr>id' = ''X'', name = ''Xu''\<rparr>, \<lparr>id' = ''Y'', name = ''Yan''\<rparr>]"
  let ?s = "\<lparr>random_calls = 0, console = []\<rparr>"
  have two: "2 \<le> length ?XY" and few: "length [\<lparr>id' = ''X'', name = ''Xu''\<rparr>] < 2"
    by simp_all
  have none: "fst (generateDerangement ?XY 3 (\<lambda>_. 1 / 2) ?s) = None"
    by (simp add: generate_pair_half)
  note t = generateDerangement_attempts [OF two, of 3 "\<lambda>_. 1 / 2" ?s "[\<lparr>id' = ''X'', name = ''Xu''\<rparr>]"]
  from t none have "snd (generateDerangement ?XY 3 (\<lambda>_. 1 / 2) ?s)
      = ?s\<lparr>random_calls := random_calls ?s + 3 * (length ?XY - 1),
           console := console ?s @ [Error_failed 3]\<rparr>"
    by blast
  then have "snd (generateDerangement ?XY 3 (\<lambda>_. 1 / 2) ?s)
      = \<lparr>random_calls = 3, console = [Error_failed 3]\<rparr>"
    by simp
  moreover from t few have "generateDerangement [\<lparr>id' = ''X'', name = ''Xu''\<rparr>] 3 (\<lambda>_. 1 / 2) ?s
       = (None, ?s\<lparr>console := console ?s @ [Error_need_participants]\<rparr>)"
    by blast
  then have "generateDerangement [\<lparr>id' = ''X'', name = ''Xu''\<rparr>] 3 (\<lambda>_. 1 / 2) ?s
       = (None, \<lparr>random_calls = 0, console = [Error_need_participants]\<rparr>)"
    by simp
  ultimately show ?thesis using two few none by blast
qed

text \<open>
  C6. \<open>shuffle\<close> is the Fisher-Yates shuffle. It walks the positions from the last one
  down to 1 and swaps position \<open>i\<close> with a drawn position in \<open>[0, i]\<close>: the draws it makes form
  an admissible choice sequence, its result is the result of the choice-driven loop on
  those draws, and every admissible choice sequence is drawn by some random source. The
  output is a permutation of the input. It is the input rearranged by the permutation of
  positions that the same choices produce on \<open>[0, \<dots>, n - 1]\<close>, and every permutation of
  the positions is produced by exactly one admissible choice sequence; so is every
  rearrangement of an input without repeated elements.
\<close>

theorem shuffle_fisher_yates:
  "(rng_ok u \<longrightarrow>
      choices_ok (length xs - 1) (draws u (length xs - 1) k)
      \<and> shuffle xs u k = (shuffle_choices (length xs - 1) (draws u (length xs - 1) k) xs, k + (length xs - 1))
      \<and> mset (fst (shuffle xs u k)) = mset xs)
   \<and> (choices_ok (length xs - 1) js \<longrightarrow>
      (\<exists>u. rng_ok u \<and> draws u (length xs - 1) 0 = js)
      \<and> shuffle_choices (length xs - 1) js xs
          = map ((!) xs) (shuffle_choices (length xs - 1) js [0..<length xs]))
   \<and> (mset p = mset [0..<length xs] \<longrightarrow>
      (\<exists>!js. choices_ok (length xs - 1) js \<and> shuffle_choices (length xs - 1) js [0..<length xs] = p))
   \<and> (distinct xs \<and> mset ys = mset xs \<longrightarrow>
      (\<exists>!js. choices_ok (length xs - 1) js \<and> shuffle_choices (length xs - 1) js xs = ys))"
proof (intro conjI impI)
  assume "rng_ok u"
  then show "choices_ok (length xs - 1) (draws u (length xs - 1) k)"
    by (rule choices_ok_draws)
  show "shuffle xs u k = (shuffle_choices (length xs - 1) (draws u (length xs - 1) k) xs, k + (length xs - 1))"
    by (simp add: shuffle_def shuffle_loop_choices)
  show "mset (fst (shuffle xs u k)) = mset xs"
    using \<open>rng_ok u\<close> by (rule mset_fst_shuffle)
next
  assume "choices_ok (length xs - 1) js"
  then show "\<exists>u. rng_ok u \<and> draws u (length xs - 1) 0 = js"
    by (rule choices_ok_drawn)
  show "shuffle_choices (length xs - 1) js xs
          = map ((!) xs) (shuffle_choices (length xs - 1) js [0..<length xs])"
    using \<open>choices_ok (length xs - 1) js\<close> by (rule shuffle_choices_positions)
next
  assume "mset p = mset [0..<length xs]"
  with shuffle_choices_ex1 [of "[0..<length xs]" p]
  show "\<exists>!js. choices_ok (length xs - 1) js \<and> shuffle_choices (length xs - 1) js [0..<length xs] = p"
    by simp
next
  assume "distinct xs \<and> mset ys = mset xs"
  then show "\<exists>!js. choices_ok (length xs - 1) js \<and> shuffle_choices (length xs - 1) js xs = ys"
    by (intro shuffle_choices_ex1) simp_all
qed

theorem shuffle_fisher_yates_witness:
  "rng_ok (\<lambda>_. 1 / 2)
   \<and> choices_ok 2 [1, 1]
   \<and> shuffle [''a'', ''b'', ''c''] (\<lambda>_. 1 / 2) 0 = ([''a'', ''c'', ''b''], 2)
   \<and> mset [''a'', ''c'', ''b''] = mset [''a'', ''b'', ''c'']
   \<and> (\<exists>u. rng_ok u \<and> draws u 2 0 = [1, 1])
   \<and> shuffle_choices 2 [1, 1] [''a'', ''b'', ''c''] = map ((!) [''a'', ''b'', ''c'']) [0, 2, 1]
   \<and> mset [2, 0, 1] = mset [0..<3]
   \<and> (\<exists>!js. choices_ok 2 js \<and> shuffle_choices 2 js [0..<3] = [2, 0, 1])
   \<and> distinct [''a'', ''b'', ''c'']
   \<and> (\<exists>!js. choices_ok 2 js \<and> shuffle_choices 2 js [''a'', ''b'', ''c''] = [''c'', ''a'', ''b''])"
proof -
  have ok: "rng_ok (\<lambda>_. 1 / 2)" by (simp add: rng_ok_def)
  have d: "draws (\<lambda>_. 1 / 2) 2 0 = [1, 1]"
    by (simp add: numeral_2_eq_2 random_index_def)
  have p: "mset [2, 0, 1] = mset [0..<3]"
    by (simp add: upt_rec)
  have ys: "distinct [''a'', ''b'', ''c''] \<and> mset [''c'', ''a'', ''b''] = mset [''a'', ''b'', ''c'']"
    by simp
  have l: "(3::nat) - 1 = 2" and l3: "length [''a'', ''b'', ''c''] = 3"
    by simp_all
  note t = shuffle_fisher_yates [of "\<lambda>_. 1 / 2" "[''a'', ''b'', ''c'']" 0 "[1, 1]" "[2, 0, 1]"
      "[''c'', ''a'', ''b'']", unfolded l3 l d]
  from t ok have c: "choices_ok 2 [1, 1]"
    and s: "shuffle [''a'', ''b'', ''c''] (\<lambda>_. 1 / 2) 0
              = (shuffle_choices 2 [1, 1] [''a'', ''b'', ''c''], 0 + 2)"
    and m: "mset (fst (shuffle [''a'', ''b'', ''c''] (\<lambda>_. 1 / 2) 0)) = mset [''a'', ''b'', ''c'']"
    by blast+
  have e: "shuffle_choices 2 [1, 1] [''a'', ''b'', ''c''] = [''a'', ''c'', ''b'']"
    by (simp add: numeral_2_eq_2)
  have s': "shuffle [''a'', ''b'', ''c''] (\<lambda>_. 1 / 2) 0 = ([''a'', ''c'', ''b''], 2)"
    unfolding s e by simp
  have m': "mset [''a'', ''c'', ''b''] = mset [''a'', ''b'', ''c'']"
    using m unfolding s' by simp
  from t c have dr: "\<exists>u. rng_ok u \<and> draws u 2 0 = [1, 1]"
    and "shuffle_choices 2 [1, 1] [''a'', ''b'', ''c'']
          = map ((!) [''a'', ''b'', ''c'']) (shuffle_choices 2 [1, 1] [0..<3])"
    by blast+
  moreover have "shuffle_choices 2 [1, 1] [0..<3] = [0, 2, 1]"
    by (simp add: numeral_2_eq_2 upt_rec)
  ultimately have pos: "shuffle_choices 2 [1, 1] [''a'', ''b'', ''c'']
          = map ((!) [''a'', ''b'', ''c'']) [0, 2, 1]"
    by (simp only:)
  from t p have u1: "\<exists>!js. choices_ok 2 js \<and> shuffle_choices 2 js [0..<3] = [2, 0, 1]"
    by blast
  from t ys
  have u2: "\<exists>!js. choices_ok 2 js \<and> shuffle_choices 2 js [''a'', ''b'', ''c''] = [''c'', ''a'', ''b'']"
    by blast
  from ok c s' m' dr pos p u1 ys u2 show ?thesis by blast
qed

text \<open>
  C7, as stated, fails on an assignment array holding \<^verbatim>\<open>null\<close>: reading
  \<^verbatim>\<open>assignment.giverId\<close> throws a TypeError.
\<close>

theorem validateAssignments_js_throws:
  "validateAssignments_js [\<lparr>id' = ''A'', name = ''Ada''\<rparr>] (JArray [JNull]) = Inl TypeError"
  by (simp add: validateAssignments_js_def)

text \<open>
  C7, amended. On every array of assignments none of whose elements is \<^verbatim>\<open>null\<close> or
  \<^verbatim>\<open>undefined\<close>, whatever their giverId and receiverId properties hold, the validator
  returns a boolean and does not throw; it returns true only if the array is as long as
  the participant list and every element has a string giverId and a string receiverId, so
  an absent or type-mismatched field makes it return false. On well-typed assignments it
  returns what the typed function returns.
\<close>

theorem validateAssignments_js_no_throw:
  assumes "\<forall>a \<in> set elems. a \<noteq> JNull \<and> a \<noteq> JUndefined"
  shows "(\<exists>b. validateAssignments_js participants (JArray elems) = Inr b
            \<and> (b \<longrightarrow> length elems = length participants
                   \<and> (\<forall>a \<in> set elems. string_prop a ''giverId'' \<and> string_prop a ''receiverId'')))
       \<and> validateAssignments_js participants (JArray (map assignment_value assignments))
           = Inr (validateAssignments participants assignments)"
  using validateAssignments_js_total [OF assms] validateAssignments_js_typed by blast

theorem validateAssignments_js_no_throw_witness:
  "list_all (\<lambda>a. a \<noteq> JNull \<and> a \<noteq> JUndefined)
      [JObject [(''giverId'', JNumber 5), (''receiverId'', JString ''A'')], JObject []]
   \<and> \<not> string_prop (JObject [(''giverId'', JNumber 5), (''receiverId'', JString ''A'')]) ''giverId''
   \<and> validateAssignments_js [\<lparr>id' = ''A'', name = ''Ada''\<rparr>, \<lparr>id' = ''B'', name = ''Bob''\<rparr>]
        (JArray [JObject [(''giverId'', JNumber 5), (''receiverId'', JString ''A'')], JObject []])
      = Inr False"
proof -
  let ?elems = "[JObject [(''giverId'', JNumber 5), (''receiverId'', JString ''A'')], JObject []]"
  let ?ps = "[\<lparr>id' = ''A'', name = ''Ada''\<rparr>, \<lparr>id' = ''B'', name = ''Bob''\<rparr>]"
  have h: "\<forall>a \<in> set ?elems. a \<noteq> JNull \<and> a \<noteq> JUndefined" by simp
  have n: "\<not> string_prop (JObject [(''giverId'', JNumber 5), (''receiverId'', JString ''A'')]) ''giverId''"
    by (simp add: string_prop_def)
  from validateAssignments_js_no_throw [OF h, of ?ps] obtain b
    where b: "validateAssignments_js ?ps (JArray ?elems) = Inr b"
      and s: "b \<longrightarrow> (\<forall>a \<in> set ?elems. string_prop a ''giverId'' \<and> string_prop a ''receiverId'')"
    by blast
  from s n have "\<not> b" by auto
  with b have "validateAssignments_js ?ps (JArray ?elems) = Inr False" by simp
  with h n show ?thesis unfolding list_all_iff by blast
qed

text \<open>
  C8, as stated, fails for the outcomes in which every draw picks index 1: with all 1000
  draws equal to 3/4 each shuffle of [X, Y] is the identity, and the generator returns
  \<^verbatim>\<open>null\<close>.
\<close>

theorem generateDerangement_pair_exhausted:
  "rng_ok (\<lambda>_. 3 / 4)
   \<and> ''X'' \<noteq> ''Y''
   \<and> fst (generateDerangement [\<lparr>id' = ''X'', name = ''Xu''\<rparr>, \<lparr>id' = ''Y'', name = ''Yan''\<rparr>] 1000
          (\<lambda>_. 3 / 4) \<lparr>random_calls = 0, console = []\<rparr>) = None
   \<and> fst (generateDerangement [\<lparr>id' = ''X'', name = ''Xu''\<rparr>, \<lparr>id' = ''Y'', name = ''Yan''\<rparr>] 1000
          (\<lambda>_. 3 / 4) \<lparr>random_calls = 0, console = []\<rparr>)
      \<noteq> Some [\<lparr>giverId = ''X'', receiverId = ''Y''\<rparr>, \<lparr>giverId = ''Y'', receiverId = ''X''\<rparr>]"
  by (simp add: generate_pair_three_quarters rng_ok_const)

text \<open>
  C8, amended. For two participants X, Y with distinct ids, the generator returns the
  swap X to Y, Y to X when one of its first \<open>maxAttempts\<close> draws is below 1/2 (picks index
  0), and \<^verbatim>\<open>null\<close> when none is: whenever it returns assignments, they are the swap.
\<close>

theorem generateDerangement_pair:
  assumes "id' X \<noteq> id' Y" and "rng_ok u"
  shows "fst (generateDerangement [X, Y] maxAttempts u s) =
     (if \<exists>a < maxAttempts. u (random_calls s + a) < 1 / 2
      then Some [\<lparr>giverId = id' X, receiverId = id' Y\<rparr>, \<lparr>giverId = id' Y, receiverId = id' X\<rparr>]
      else None)"
  unfolding generate_pair [OF assms(2)] using assms(1) by simp

theorem generateDerangement_pair_witness:
  "id' \<lparr>id' = ''X'', name = ''Xu''\<rparr> \<noteq> id' \<lparr>id' = ''Y'', name = ''Yan''\<rparr>
   \<and> rng_ok (\<lambda>k. if k < 2 then 3 / 4 else 1 / 4)
   \<and> fst (generateDerangement [\<lparr>id' = ''X'', name = ''Xu''\<rparr>, \<lparr>id' = ''Y'', name = ''Yan''\<rparr>] 1000
          (\<lambda>k. if k < 2 then 3 / 4 else 1 / 4) \<lparr>random_calls = 0, console = []\<rparr>)
      = Some [\<lparr>giverId = ''X'', receiverId = ''Y''\<rparr>, \<lparr>giverId = ''Y'', receiverId = ''X''\<rparr>]
   \<and> fst (generateDerangement [\<lparr>id' = ''X'', name = ''Xu''\<rparr>, \<lparr>id' = ''Y'', name = ''Yan''\<rparr>] 2
          (\<lambda>k. if k < 2 then 3 / 4 else 1 / 4) \<lparr>random_calls = 0, console = []\<rparr>)
      = None"
proof -
  let ?u = "\<lambda>k::nat. if k < 2 then 3 / 4 else (1 / 4 :: real)"
  have ne: "id' \<lparr>id' = ''X'', name = ''Xu''\<rparr> \<noteq> id' \<lparr>id' = ''Y'', name = ''Yan''\<rparr>"
    by simp
  have ok: "rng_ok ?u" by (simp add: rng_ok_def)
  have yes: "\<exists>a < 1000. ?u (random_calls \<lparr>random_calls = 0, console = []\<rparr> + a) < 1 / 2"
    by (intro exI [of _ 2]) simp
  have no: "\<not> (\<exists>a < 2. ?u (random_calls \<lparr>random_calls = 0, console = []\<rparr> + a) < 1 / 2)"
    by simp
  from generateDerangement_pair [OF ne ok, of 1000 "\<lparr>random_calls = 0, console = []\<rparr>"] yes
  have "fst (generateDerangement [\<lparr>id' = ''X'', name = ''Xu''\<rparr>, \<lparr>id' = ''Y'', name = ''Yan''\<rparr>] 1000
          ?u \<lparr>random_calls = 0, console = []\<rparr>)
      = Some [\<lparr>giverId = ''X'', receiverId = ''Y''\<rparr>, \<lparr>giverId = ''Y'', receiverId = ''X''\<rparr>]"
    by (simp only: if_True participant.simps)
  moreover
  from generateDerangement_pair [OF ne ok, of 2 "\<lparr>random_calls = 0, console = []\<rparr>"] no
  have "fst (generateDerangement [\<lparr>id' = ''X'', name = ''Xu''\<rparr>, \<lparr>id' = ''Y'', name = ''Yan''\<rparr>] 2
          ?u \<lparr>random_calls = 0, console = []\<rparr>) = None"
    by (simp only: if_False)
  ultimately show ?thesis using ne ok by blast
qed

text \<open>
  C9. Whenever the validator returns true the participant ids are pairwise distinct: with
  a repeated id there are fewer distinct ids than participants, and the givers, all of
  them participant ids, can never be as many as \<^verbatim>\<open>participants.length\<close>.
\<close>

theorem validateAssignments_implies_distinct_ids:
  "validateAssignments participants assignments \<Longrightarrow> distinct (map id' participants)"
  by (rule validateAssignments_distinct_ids)

theorem validateAssignments_implies_distinct_ids_witness:
  "validateAssignments
     [\<lparr>id' = ''A'', name = ''Ada''\<rparr>, \<lparr>id' = ''B'', name = ''Bob''\<rparr>]
     [\<lparr>giverId = ''A'', receiverId = ''B''\<rparr>, \<lparr>giverId = ''B'', receiverId = ''A''\<rparr>]
   \<and> distinct (map id' [\<lparr>id' = ''A'', name = ''Ada''\<rparr>, \<lparr>id' = ''B'', name = ''Bob''\<rparr>])"
proof -
  have v: "validateAssignments
     [\<lparr>id' = ''A'', name = ''Ada''\<rparr>, \<lparr>id' = ''B'', name = ''Bob''\<rparr>]
     [\<lparr>giverId = ''A'', receiverId = ''B''\<rparr>, \<lparr>giverId = ''B'', receiverId = ''A''\<rparr>]"
    by (simp add: validateAssignments_def)
  from v validateAssignments_implies_distinct_ids [OF v] show ?thesis by (rule conjI)
qed

text \<open>
  C10. On an empty participant list and an empty assignment list the validator returns
  true: the lengths agree, the loop body never runs, and both set sizes are 0. The
  generator, on the empty participant list, returns \<^verbatim>\<open>null\<close>.
\<close>

theorem validateAssignments_empty:
  "validateAssignments [] [] = True \<and> fst (generateDerangement [] maxAttempts u s) = None"
  by (simp add: validateAssignments_def generateDerangement_def)

end
